theory Spec2Isabelle
  imports Complex_Main "HOL-Library.Word"
begin

section \<open>Strings and character classes\<close>

text \<open>
  A JavaScript string is a sequence of UTF-16 code units. A code unit is modelled by its
  number, so every string of the program is a list of naturals; ASCII literals of the
  source are written with \<open>str\<close>.
\<close>

type_synonym jsstring = "nat list"

definition str :: "string \<Rightarrow> jsstring" where
  "str s = map of_char s"

text \<open>
  The class \<open>\s\<close> of a regular expression, which is also what \<open>String.prototype.trim\<close>
  strips: tab, line feed, vertical tab, form feed, carriage return, space, U+00A0, U+1680,
  U+2000 to U+200A, U+2028, U+2029, U+202F, U+205F, U+3000 and U+FEFF.
\<close>

definition is_space :: "nat \<Rightarrow> bool" where
  "is_space c \<longleftrightarrow>
     (9 \<le> c \<and> c \<le> 13) \<or> c = 32 \<or> c = 160 \<or> c = 5760 \<or> (8192 \<le> c \<and> c \<le> 8202) \<or>
     c = 8232 \<or> c = 8233 \<or> c = 8239 \<or> c = 8287 \<or> c = 12288 \<or> c = 65279"

definition trim :: "jsstring \<Rightarrow> jsstring" where
  "trim s = rev (dropWhile is_space (rev (dropWhile is_space s)))"

section \<open>Regular expressions\<close>

text \<open>
  Every regular expression of \<^verbatim>\<open>backend/src/index.js\<close> is a sequence of character
  classes, each taken once or under one of the quantifiers \<open>*\<close>, \<open>+\<close> and \<open>+?\<close>.
\<close>

datatype cclass =
    Ch nat                \<comment> \<open>one literal code unit\<close>
  | Space                 \<comment> \<open>\<open>\s\<close>\<close>
  | OneOf "nat list"      \<comment> \<open>\<open>[...]\<close>\<close>
  | NoneOf "nat list"     \<comment> \<open>\<open>[^...]\<close>\<close>

datatype quant =
    Once
  | StarG                 \<comment> \<open>\<open>*\<close>, greedy\<close>
  | PlusG                 \<comment> \<open>\<open>+\<close>, greedy\<close>
  | PlusL                 \<comment> \<open>\<open>+?\<close>, lazy\<close>

datatype atom = Atom quant cclass

type_synonym regex = "atom list"

fun cls_mem :: "cclass \<Rightarrow> nat \<Rightarrow> bool" where
  "cls_mem (Ch a) c = (c = a)"
| "cls_mem Space c = is_space c"
| "cls_mem (OneOf cs) c = (c \<in> set cs)"
| "cls_mem (NoneOf cs) c = (c \<notin> set cs)"

definition lit :: "jsstring \<Rightarrow> regex" where
  "lit s = map (\<lambda>c. Atom Once (Ch c)) s"

text \<open>
  The backtracking matcher. \<open>atom_lens a s\<close> lists the numbers of code units the atom
  may consume at the start of \<open>s\<close>, in the order a backtracking engine tries them: a
  greedy quantifier from the longest run down, a lazy one from the shortest up.
  \<open>rx_paths r s\<close> lists, in the same order, every way of matching the whole expression at
  the start of \<open>s\<close>, as the list of the lengths consumed by its atoms; the engine returns
  the first.
\<close>

fun atom_lens :: "atom \<Rightarrow> jsstring \<Rightarrow> nat list" where
  "atom_lens (Atom Once k) s =
     (case s of [] \<Rightarrow> [] | c # _ \<Rightarrow> if cls_mem k c then [1] else [])"
| "atom_lens (Atom StarG k) s = rev [0 ..< Suc (length (takeWhile (cls_mem k) s))]"
| "atom_lens (Atom PlusG k) s = rev [1 ..< Suc (length (takeWhile (cls_mem k) s))]"
| "atom_lens (Atom PlusL k) s = [1 ..< Suc (length (takeWhile (cls_mem k) s))]"

fun rx_paths :: "regex \<Rightarrow> jsstring \<Rightarrow> nat list list" where
  "rx_paths [] s = [[]]"
| "rx_paths (a # r) s =
     concat (map (\<lambda>n. map ((#) n) (rx_paths r (drop n s))) (atom_lens a s))"

definition rx_match :: "regex \<Rightarrow> jsstring \<Rightarrow> nat list option" where
  "rx_match r s = (case rx_paths r s of [] \<Rightarrow> None | p # _ \<Rightarrow> Some p)"

text \<open>
  \<open>rx_search r s\<close> is the leftmost position of \<open>s\<close> at which the expression matches,
  with the match found there: what \<open>RegExp.prototype.exec\<close> finds from \<open>lastIndex = 0\<close>.
\<close>

fun rx_search :: "regex \<Rightarrow> jsstring \<Rightarrow> (nat \<times> nat list) option" where
  "rx_search r [] = map_option (Pair 0) (rx_match r [])"
| "rx_search r (c # cs) =
     (case rx_match r (c # cs) of
        Some p \<Rightarrow> Some (0, p)
      | None \<Rightarrow> map_option (\<lambda>(i, p). (Suc i, p)) (rx_search r cs))"

text \<open>\<open>regex.exec(s)\<close> of a global expression whose \<open>lastIndex\<close> is \<open>i\<close>.\<close>

definition rx_exec :: "regex \<Rightarrow> jsstring \<Rightarrow> nat \<Rightarrow> (nat \<times> nat list) option" where
  "rx_exec r s i =
     (if length s < i then None
      else map_option (\<lambda>(j, p). (i + j, p)) (rx_search r (drop i s)))"

section \<open>String.prototype.replace\<close>

text \<open>
  \<open>GetSubstitution\<close> for an expression without capture groups: in the replacement string
  \<open>$$\<close> stands for a dollar sign, \<open>$&\<close> for the matched text, \<open>$`\<close> for the text before the
  match and \<open>$'\<close> for the text after it; any other \<open>$\<close> is literal.
\<close>

fun getSubstitution :: "jsstring \<Rightarrow> jsstring \<Rightarrow> jsstring \<Rightarrow> jsstring \<Rightarrow> jsstring" where
  "getSubstitution matched pre post [] = []"
| "getSubstitution matched pre post [c] = [c]"
| "getSubstitution matched pre post (c # d # t) =
     (if c = 36 \<and> d = 36 then 36 # getSubstitution matched pre post t
      else if c = 36 \<and> d = 38 then matched @ getSubstitution matched pre post t
      else if c = 36 \<and> d = 96 then pre @ getSubstitution matched pre post t
      else if c = 36 \<and> d = 39 then post @ getSubstitution matched pre post t
      else c # getSubstitution matched pre post (d # t))"

text \<open>
  \<open>s.replace(r, t)\<close> for a global expression \<open>r\<close> and a replacement string \<open>t\<close>:
  \<open>replace_from r t pre s\<close> rewrites the rest \<open>s\<close> of a string whose part \<open>pre\<close> has
  been scanned. After an empty match the scan moves on by one code unit.
\<close>

fun replace_from :: "regex \<Rightarrow> jsstring \<Rightarrow> jsstring \<Rightarrow> jsstring \<Rightarrow> jsstring" where
  "replace_from r t pre [] =
     (case rx_match r [] of None \<Rightarrow> [] | Some p \<Rightarrow> getSubstitution [] pre [] t)"
| "replace_from r t pre (c # cs) =
     (case rx_match r (c # cs) of
        None \<Rightarrow> c # replace_from r t (pre @ [c]) cs
      | Some p \<Rightarrow>
          (case sum_list p of
             0 \<Rightarrow> getSubstitution [] pre (c # cs) t @ c # replace_from r t (pre @ [c]) cs
           | Suc n \<Rightarrow>
               getSubstitution (c # take n cs) pre (drop n cs) t
                 @ replace_from r t (pre @ c # take n cs) (drop n cs)))"

definition replace :: "jsstring \<Rightarrow> regex \<Rightarrow> jsstring \<Rightarrow> jsstring" where
  "replace s r t = replace_from r t [] s"

section \<open>The helpers of the backend\<close>

text \<open>A backslash followed by ASCII text: the way a pattern source is written below.\<close>

definition bs :: "string \<Rightarrow> jsstring" where
  "bs s = 92 # str s"

text \<open>
  \<^verbatim>\<open>encodeXml\<close>: five global replacements, of \<open>&\<close>, \<open><\<close>, \<open>>\<close>, the double quote (34) and
  the single quote (39), in the order of the source.
\<close>

definition encodeXml :: "jsstring \<Rightarrow> jsstring" where
  "encodeXml v =
     (let v1 = replace v (lit (str ''&'')) (str ''&amp;'');
          v2 = replace v1 (lit (str ''<'')) (str ''&lt;'');
          v3 = replace v2 (lit (str ''>'')) (str ''&gt;'');
          v4 = replace v3 (lit [34]) (str ''&quot;'')
      in replace v4 (lit [39]) (str ''&apos;''))"

text \<open>
  \<^verbatim>\<open>escapeRegExp\<close>: every code unit of the class \<^verbatim>\<open>[.*+?^${}()|[\]\\]\<close> is replaced by
  \<^verbatim>\<open>\$&\<close>, a backslash followed by the code unit itself.
\<close>

definition syntax_chars :: "nat list" where
  "syntax_chars = str ''.*+?^${}()|[]'' @ [92]"

definition escapeRegExp :: "jsstring \<Rightarrow> jsstring" where
  "escapeRegExp v = replace v [Atom Once (OneOf syntax_chars)] (bs ''$&'')"

text \<open>\<^verbatim>\<open>stripXml\<close>: every match of \<^verbatim>\<open><[^>]+>\<close> becomes a space.\<close>

definition stripXml :: "jsstring \<Rightarrow> jsstring" where
  "stripXml v =
     replace v (lit (str ''<'') @ [Atom PlusG (NoneOf (str ''>''))] @ lit (str ''>'')) (str '' '')"

text \<open>
  \<^verbatim>\<open>decodeXmlEntities\<close>: the five entities are decoded, \<open>&amp;\<close> last, every run of white
  space becomes one space, and the result is trimmed.
\<close>

definition decodeXmlEntities :: "jsstring \<Rightarrow> jsstring" where
  "decodeXmlEntities v =
     (let v1 = replace v (lit (str ''&quot;'')) [34];
          v2 = replace v1 (lit (str ''&apos;'')) [39];
          v3 = replace v2 (lit (str ''&lt;'')) (str ''<'');
          v4 = replace v3 (lit (str ''&gt;'')) (str ''>'');
          v5 = replace v4 (lit (str ''&amp;'')) (str ''&'');
          v6 = replace v5 [Atom PlusG Space] (str '' '')
      in trim v6)"

text \<open>
  \<^verbatim>\<open>extractContextSnippet\<close>: the window of 400 code units on each side of the match,
  clipped to the string (the subtraction on naturals is \<open>Math.max(0, index - window)\<close>).
\<close>

definition extractContextSnippet :: "jsstring \<Rightarrow> nat \<Rightarrow> nat \<Rightarrow> jsstring" where
  "extractContextSnippet xml index len =
     (let window = 400;
          start = index - window;
          end' = min (length xml) (index + len + window);
          snippet = take (end' - start) (drop start xml)
      in decodeXmlEntities (stripXml snippet))"

section \<open>Placeholder discovery\<close>

record placeholder =
  id' :: jsstring
  label :: jsstring
  context' :: jsstring

text \<open>The expression \<^verbatim>\<open>/\{\{\s*([^{}]+?)\s*\}\}/g\<close>; its capture group is the atom at index 3.\<close>

definition curly_regex :: regex where
  "curly_regex =
     lit (str ''{{'') @ [Atom StarG Space, Atom PlusL (NoneOf (str ''{}'')), Atom StarG Space]
       @ lit (str ''}}'')"

text \<open>
  \<open>capture i p s\<close> is the text consumed by the atom at index \<open>i\<close> in a match \<open>p\<close> found at
  the start of \<open>s\<close>.
\<close>

definition capture :: "nat \<Rightarrow> nat list \<Rightarrow> jsstring \<Rightarrow> jsstring" where
  "capture i p s =
     (case drop i p of [] \<Rightarrow> [] | n # _ \<Rightarrow> take n (drop (sum_list (take i p)) s))"

subsection \<open>Progress of the matcher\<close>

text \<open>
  The discovery loop below calls \<open>exec\<close> until it returns \<open>null\<close>; it ends because every
  match of \<open>curly_regex\<close> consumes at least one code unit of the string.
\<close>

lemma atom_lens_le: "n \<in> set (atom_lens a s) \<Longrightarrow> n \<le> length s"
proof (cases a)
  case (Atom q k)
  have "length (takeWhile (cls_mem k) s) \<le> length s"
    by (rule length_takeWhile_le)
  with Atom show "n \<in> set (atom_lens a s) \<Longrightarrow> n \<le> length s"
    by (cases q) (auto split: list.splits if_splits)
qed

lemma rx_paths_sum_le: "p \<in> set (rx_paths r s) \<Longrightarrow> sum_list p \<le> length s"
proof (induction r arbitrary: s p)
  case Nil
  then show ?case by simp
next
  case (Cons a r)
  then obtain n q where n: "n \<in> set (atom_lens a s)" and q: "q \<in> set (rx_paths r (drop n s))"
    and p: "p = n # q"
    by auto
  from Cons.IH [OF q] atom_lens_le [OF n] show ?case
    by (simp add: p)
qed

lemma rx_match_in_paths: "rx_match r s = Some p \<Longrightarrow> p \<in> set (rx_paths r s)"
  by (auto simp: rx_match_def split: list.splits)

lemma rx_match_None_iff: "rx_match r s = None \<longleftrightarrow> rx_paths r s = []"
  by (auto simp: rx_match_def split: list.splits)

lemma rx_search_Some:
  "rx_search r s = Some (j, p) \<Longrightarrow>
     j \<le> length s \<and> rx_match r (drop j s) = Some p \<and> (\<forall>i<j. rx_match r (drop i s) = None)"
proof (induction s arbitrary: j)
  case Nil
  then show ?case by auto
next
  case (Cons c cs)
  show ?case
  proof (cases "rx_match r (c # cs)")
    case (Some q)
    with Cons.prems show ?thesis by simp
  next
    case None
    with Cons.prems obtain j' where j': "rx_search r cs = Some (j', p)" and j: "j = Suc j'"
      by auto
    from Cons.IH [OF j'] None show ?thesis
      by (auto simp: j less_Suc_eq_0_disj)
  qed
qed

lemma rx_search_None:
  "rx_search r s = None \<Longrightarrow> i \<le> length s \<Longrightarrow> rx_match r (drop i s) = None"
proof (induction s arbitrary: i)
  case Nil
  then show ?case by (auto split: option.splits)
next
  case (Cons c cs)
  then show ?case
    by (cases i) (auto split: option.splits)
qed

lemma rx_exec_Some:
  assumes "rx_exec r s i = Some (j, p)"
  shows "i \<le> j" and "j \<le> length s" and "rx_match r (drop j s) = Some p"
    and "\<And>k. i \<le> k \<Longrightarrow> k < j \<Longrightarrow> rx_match r (drop k s) = None"
proof -
  from assms obtain j' where le: "i \<le> length s" and s: "rx_search r (drop i s) = Some (j', p)"
    and j: "j = i + j'"
    by (auto simp: rx_exec_def split: if_splits)
  note * = rx_search_Some [OF s]
  show "i \<le> j" by (simp add: j)
  show "j \<le> length s" using * le by (auto simp: j)
  show "rx_match r (drop j s) = Some p" using * by (simp add: j add.commute)
  show "rx_match r (drop k s) = None" if "i \<le> k" "k < j" for k
  proof -
    from that have "k - i < j'" by (simp add: j)
    with * have "rx_match r (drop (k - i) (drop i s)) = None" by blast
    with that show ?thesis by simp
  qed
qed

lemma rx_exec_None:
  "rx_exec r s i = None \<Longrightarrow> i \<le> k \<Longrightarrow> k \<le> length s \<Longrightarrow> rx_match r (drop k s) = None"
  using rx_search_None [of r "drop i s" "k - i"]
  by (auto simp: rx_exec_def split: if_splits)

lemma rx_paths_Once_pos: "p \<in> set (rx_paths (Atom Once k # r) s) \<Longrightarrow> 0 < sum_list p"
  by (auto split: list.splits if_splits)

lemma curly_regex_pos: "p \<in> set (rx_paths curly_regex s) \<Longrightarrow> 0 < sum_list p"
  unfolding curly_regex_def lit_def str_def
  by (simp only: list.map append_Cons) (erule rx_paths_Once_pos)

lemma curly_exec_progress:
  assumes "rx_exec curly_regex s i = Some (j, p)"
  shows "i < j + sum_list p" and "j + sum_list p \<le> length s"
proof -
  from rx_exec_Some(3) [OF assms] have p: "p \<in> set (rx_paths curly_regex (drop j s))"
    by (rule rx_match_in_paths)
  from curly_regex_pos [OF p] rx_exec_Some(1) [OF assms] show "i < j + sum_list p" by simp
  from rx_paths_sum_le [OF p] rx_exec_Some(2) [OF assms] show "j + sum_list p \<le> length s" by simp
qed

subsection \<open>The discovery loop\<close>

text \<open>
  \<^verbatim>\<open>extractPlaceholders\<close>: the loop \<^verbatim>\<open>while ((match = regex.exec(documentXml)) !== null)\<close>,
  with the expression's \<open>lastIndex\<close> and the two accumulators \<open>placeholders\<close> and \<open>seen\<close> as
  the loop state. A match whose trimmed group is empty or already seen is skipped.
\<close>

function extract_loop ::
  "jsstring \<Rightarrow> nat \<Rightarrow> placeholder list \<Rightarrow> jsstring set \<Rightarrow> placeholder list" where
  "extract_loop documentXml lastIndex placeholders seen =
     (case rx_exec curly_regex documentXml lastIndex of
        None \<Rightarrow> placeholders
      | Some (index, p) \<Rightarrow>
          (let len = sum_list p;
               rawKey = trim (capture 3 p (drop index documentXml))
           in if rawKey = [] \<or> rawKey \<in> seen
              then extract_loop documentXml (index + len) placeholders seen
              else extract_loop documentXml (index + len)
                     (placeholders @
                        [\<lparr>id' = rawKey, label = rawKey,
                          context' = extractContextSnippet documentXml index len\<rparr>])
                     (insert rawKey seen)))"
  by pat_completeness auto
termination
proof (relation "measure (\<lambda>(documentXml, lastIndex, _, _). length documentXml - lastIndex)",
    goal_cases)
  case 1
  show ?case by simp
next
  case (2 documentXml lastIndex placeholders seen x2 index p len rawKey)
  then have "rx_exec curly_regex documentXml lastIndex = Some (index, p)"
    by simp
  from curly_exec_progress [OF this] 2 show ?case
    by simp
next
  case (3 documentXml lastIndex placeholders seen x2 index p len rawKey)
  then have "rx_exec curly_regex documentXml lastIndex = Some (index, p)"
    by simp
  from curly_exec_progress [OF this] 3 show ?case
    by simp
qed

definition extractPlaceholders :: "jsstring \<Rightarrow> placeholder list" where
  "extractPlaceholders documentXml = extract_loop documentXml 0 [] {}"

section \<open>Compiling a pattern source\<close>

text \<open>
  \<^verbatim>\<open>new RegExp(source, 'g')\<close> for the part of the pattern language that the finalize handler
  can build: literal code units, an escaped syntax character, \<open>\s\<close>, and the quantifiers
  \<open>*\<close>, \<open>+\<close> and \<open>+?\<close>. Any other source has no value here: it is either a syntax error,
  which the constructor throws, or an expression outside this part of the language.
\<close>

datatype token = TChar nat | TSpace | TStar | TPlus | TQuest | TBad

definition token1 :: "nat \<Rightarrow> token" where
  "token1 c =
     (if c = 42 then TStar else if c = 43 then TPlus else if c = 63 then TQuest
      else if c \<in> set syntax_chars then TBad else TChar c)"

definition escaped :: "nat \<Rightarrow> token" where
  "escaped d = (if d = 115 then TSpace else if d \<in> set syntax_chars then TChar d else TBad)"

fun tokens :: "jsstring \<Rightarrow> token list" where
  "tokens [] = []"
| "tokens [c] = [token1 c]"
| "tokens (c # d # r) = (if c = 92 then escaped d # tokens r else token1 c # tokens (d # r))"

fun cls_of :: "token \<Rightarrow> cclass option" where
  "cls_of (TChar c) = Some (Ch c)"
| "cls_of TSpace = Some Space"
| "cls_of _ = None"

definition quantified :: "quant \<Rightarrow> token \<Rightarrow> regex option \<Rightarrow> regex option" where
  "quantified q t rest =
     (case cls_of t of
        None \<Rightarrow> None
      | Some k \<Rightarrow> (case rest of None \<Rightarrow> None | Some r \<Rightarrow> Some (Atom q k # r)))"

fun atoms :: "token list \<Rightarrow> regex option" where
  "atoms [] = Some []"
| "atoms (t # TPlus # TQuest # ts) = quantified PlusL t (atoms ts)"
| "atoms (t # TPlus # ts) = quantified PlusG t (atoms ts)"
| "atoms (t # TStar # TQuest # ts) = None"
| "atoms (t # TStar # ts) = quantified StarG t (atoms ts)"
| "atoms (t # ts) = quantified Once t (atoms ts)"

definition compileRegExp :: "jsstring \<Rightarrow> regex option" where
  "compileRegExp source = atoms (tokens source)"

section \<open>Request bodies\<close>

text \<open>
  A parsed JSON value. The members of an object are listed in the order in which
  \<open>Object.entries\<close> enumerates them.
\<close>

datatype json =
    JNull
  | JBool bool
  | JNumber real
  | JString jsstring
  | JArray "json list"
  | JObject "(jsstring \<times> json) list"

fun truthy :: "json \<Rightarrow> bool" where
  "truthy JNull = False"
| "truthy (JBool b) = b"
| "truthy (JNumber x) = (x \<noteq> 0)"
| "truthy (JString s) = (s \<noteq> [])"
| "truthy (JArray _) = True"
| "truthy (JObject _) = True"

text \<open>\<open>typeof v === 'object'\<close> for a value that is not \<open>null\<close>.\<close>

fun is_object :: "json \<Rightarrow> bool" where
  "is_object (JArray _) = True"
| "is_object (JObject _) = True"
| "is_object _ = False"

fun decimal :: "nat \<Rightarrow> jsstring" where
  "decimal n = (if n < 10 then [48 + n] else decimal (n div 10) @ [48 + n mod 10])"

text \<open>\<open>Object.entries\<close>: the members of an object, the indexed elements of an array.\<close>

fun entries :: "json \<Rightarrow> (jsstring \<times> json) list" where
  "entries (JObject kvs) = kvs"
| "entries (JArray vs) = zip (map decimal [0 ..< length vs]) vs"
| "entries _ = []"

section \<open>The document store and the libraries\<close>

type_synonym bytes = "8 word list"

text \<open>
  An entry of an archive: the text that \<^verbatim>\<open>async('string')\<close> reads from it, or \<open>None\<close> when
  the read fails.
\<close>

datatype zip_object = ZipObject (async_string: "jsstring option")

type_synonym zip = "jsstring \<Rightarrow> zip_object option"

text \<open>
  The calls into JSZip and mammoth, each a function of its argument; \<open>None\<close> is a
  rejected promise, which the handlers' \<^verbatim>\<open>try\<close> blocks catch.
\<close>

record libs =
  loadAsync :: "bytes \<Rightarrow> zip option"
  generateAsync :: "zip \<Rightarrow> bytes option"
  convertToHtml :: "bytes \<Rightarrow> jsstring option"

record stored_document =
  originalBuffer :: bytes
  previewHtml :: jsstring
  placeholders :: "placeholder list"
  filledBuffer :: "bytes option"
  filledHtml :: "jsstring option"
  lastValues :: json

type_synonym document_store = "jsstring \<Rightarrow> stored_document option"

datatype http_error = HttpError (status: nat) (message: jsstring)

definition document_xml :: jsstring where
  "document_xml = str ''word/document.xml''"

section \<open>POST /api/upload\<close>

record upload_file =
  originalname :: jsstring
  buffer :: bytes

datatype upload_ok = UploadOk jsstring "placeholder list" jsstring

text \<open>
  \<open>toLowerCase\<close> on the letters A to Z, which is all of it that decides whether the
  lowered name ends with \<open>.docx\<close>.
\<close>

definition toLowerCase :: "jsstring \<Rightarrow> jsstring" where
  "toLowerCase s = map (\<lambda>c. if 65 \<le> c \<and> c \<le> 90 then c + 32 else c) s"

definition endsWith :: "jsstring \<Rightarrow> jsstring \<Rightarrow> bool" where
  "endsWith s suffix \<longleftrightarrow>
     length suffix \<le> length s \<and> drop (length s - length suffix) s = suffix"

text \<open>The handler; \<open>newId\<close> is the identifier that \<open>uuid()\<close> draws for this request.\<close>

definition upload ::
  "libs \<Rightarrow> document_store \<Rightarrow> upload_file option \<Rightarrow> jsstring
     \<Rightarrow> document_store \<times> (http_error + upload_ok)" where
  "upload L documentStore file newId =
     (case file of
        None \<Rightarrow> (documentStore, Inl (HttpError 400 (str ''Missing file upload'')))
      | Some f \<Rightarrow>
          if \<not> endsWith (toLowerCase (originalname f)) (str ''.docx'')
          then (documentStore, Inl (HttpError 400 (str ''Only .docx files are supported'')))
          else
            (case convertToHtml L (buffer f) of
               None \<Rightarrow>
                 (documentStore, Inl (HttpError 500 (str ''Failed to process document upload'')))
             | Some html \<Rightarrow>
                 (case loadAsync L (buffer f) of
                    None \<Rightarrow>
                      (documentStore,
                       Inl (HttpError 500 (str ''Failed to process document upload'')))
                  | Some archive \<Rightarrow>
                      (case archive document_xml of
                         None \<Rightarrow>
                           (documentStore,
                            Inl (HttpError 400
                                   (str ''Invalid .docx structure (missing document.xml)'')))
                       | Some xmlFile \<Rightarrow>
                           (case async_string xmlFile of
                              None \<Rightarrow>
                                (documentStore,
                                 Inl (HttpError 500 (str ''Failed to process document upload'')))
                            | Some documentXml \<Rightarrow>
                                (let found = extractPlaceholders documentXml
                                 in (documentStore(newId \<mapsto>
                                        \<lparr>originalBuffer = buffer f, previewHtml = html,
                                          placeholders = found, filledBuffer = None,
                                          filledHtml = None, lastValues = JObject []\<rparr>),
                                     Inr (UploadOk newId found html))))))))"

section \<open>POST /api/finalize\<close>

record finalize_body =
  docId :: "json option"
  values' :: "json option"

datatype finalize_ok = FinalizeOk jsstring jsstring

text \<open>The source \<^verbatim>\<open>\{\{\s*KEY\s*\}\}\<close> of the pattern of a key, \<open>KEY\<close> being the escaped key.\<close>

definition placeholderSource :: "jsstring \<Rightarrow> jsstring" where
  "placeholderSource key =
     bs ''{'' @ bs ''{'' @ bs ''s*'' @ escapeRegExp key @ bs ''s*'' @ bs ''}'' @ bs ''}''"

text \<open>
  The loop over \<open>Object.entries(values)\<close>: a value that is not a string counts as the empty
  string, and every match of the key's pattern is replaced by the encoded value. \<open>None\<close> is
  the exception that \<^verbatim>\<open>new RegExp\<close> throws on a source it rejects.
\<close>

fun substitute :: "(jsstring \<times> json) list \<Rightarrow> jsstring \<Rightarrow> jsstring option" where
  "substitute [] documentXml = Some documentXml"
| "substitute ((key, rawValue) # rest) documentXml =
     (let v = (case rawValue of JString s \<Rightarrow> s | _ \<Rightarrow> [])
      in case compileRegExp (placeholderSource key) of
           None \<Rightarrow> None
         | Some placeholderPattern \<Rightarrow>
             substitute rest (replace documentXml placeholderPattern (encodeXml v)))"

definition falsy :: "json option \<Rightarrow> bool" where
  "falsy v = (case v of None \<Rightarrow> True | Some j \<Rightarrow> \<not> truthy j)"

text \<open>
  \<open>documentStore.get(docId)\<close>: the keys of the store are strings, so any other value finds
  nothing.
\<close>

definition store_get :: "document_store \<Rightarrow> json \<Rightarrow> (jsstring \<times> stored_document) option" where
  "store_get documentStore d =
     (case d of
        JString k \<Rightarrow> map_option (Pair k) (documentStore k)
      | _ \<Rightarrow> None)"

definition failed_finalize :: "http_error + finalize_ok" where
  "failed_finalize = Inl (HttpError 500 (str ''Failed to finalize document''))"

definition finalize ::
  "libs \<Rightarrow> document_store \<Rightarrow> finalize_body \<Rightarrow> document_store \<times> (http_error + finalize_ok)" where
  "finalize L documentStore body =
     (case (docId body, values' body) of
        (Some d, Some vs) \<Rightarrow>
          if \<not> truthy d \<or> \<not> truthy vs \<or> \<not> is_object vs
          then (documentStore, Inl (HttpError 400 (str ''docId and values are required'')))
          else
            (case store_get documentStore d of
               None \<Rightarrow> (documentStore, Inl (HttpError 404 (str ''Document not found'')))
             | Some (k, storedDocument) \<Rightarrow>
                 (case loadAsync L (originalBuffer storedDocument) of
                    None \<Rightarrow> (documentStore, failed_finalize)
                  | Some archive \<Rightarrow>
                      (case archive document_xml of
                         None \<Rightarrow>
                           (documentStore,
                            Inl (HttpError 400
                                   (str ''Invalid .docx structure (missing document.xml)'')))
                       | Some xmlFile \<Rightarrow>
                           (case async_string xmlFile of
                              None \<Rightarrow> (documentStore, failed_finalize)
                            | Some documentXml \<Rightarrow>
                                (case substitute (entries vs) documentXml of
                                   None \<Rightarrow> (documentStore, failed_finalize)
                                 | Some filledXml \<Rightarrow>
                                     (case generateAsync L
                                             (archive(document_xml \<mapsto> ZipObject (Some filledXml))) of
                                        None \<Rightarrow> (documentStore, failed_finalize)
                                      | Some filled \<Rightarrow>
                                          (case convertToHtml L filled of
                                             None \<Rightarrow> (documentStore, failed_finalize)
                                           | Some html \<Rightarrow>
                                               (documentStore(k \<mapsto>
                                                  storedDocument
                                                    \<lparr>filledBuffer := Some filled,
                                                     filledHtml := Some html,
                                                     lastValues := vs\<rparr>),
                                                Inr (FinalizeOk k html)))))))))
      | _ \<Rightarrow> (documentStore, Inl (HttpError 400 (str ''docId and values are required''))))"

section \<open>GET /api/documents/:docId/download\<close>

definition download :: "document_store \<Rightarrow> jsstring \<Rightarrow> http_error + bytes" where
  "download documentStore k =
     (case documentStore k of
        None \<Rightarrow> Inl (HttpError 404 (str ''Document not found''))
      | Some storedDocument \<Rightarrow>
          Inr (case filledBuffer storedDocument of
                 Some filled \<Rightarrow> filled
               | None \<Rightarrow> originalBuffer storedDocument))"

section \<open>The client: finalizeDocument\<close>

datatype chat_message = ChatMessage (role: jsstring) (content: jsstring) (message_id: jsstring)







section \<open>Sequences of requests\<close>

text \<open>
  The requests that change the store, and the store after a sequence of them.
  \<open>latest_filled L s rs k\<close> is the \<open>filledBuffer\<close> that the last successful finalize of the
  document \<open>k\<close> among \<open>rs\<close> left in the store, if one succeeded.
\<close>

datatype request = Upload "upload_file option" jsstring | Finalize finalize_body

fun handle :: "libs \<Rightarrow> document_store \<Rightarrow> request \<Rightarrow> document_store" where
  "handle L s (Upload file newId) = fst (upload L s file newId)"
| "handle L s (Finalize body) = fst (finalize L s body)"

fun run :: "libs \<Rightarrow> document_store \<Rightarrow> request list \<Rightarrow> document_store" where
  "run L s [] = s"
| "run L s (r # rs) = run L (handle L s r) rs"

fun stored_by :: "libs \<Rightarrow> document_store \<Rightarrow> request \<Rightarrow> jsstring \<Rightarrow> bytes option" where
  "stored_by L s (Upload file newId) k = None"
| "stored_by L s (Finalize body) k =
     (case finalize L s body of
        (s', Inr (FinalizeOk k' html)) \<Rightarrow>
          if k' = k then (case s' k of None \<Rightarrow> None | Some d \<Rightarrow> filledBuffer d) else None
      | (s', Inl e) \<Rightarrow> None)"

fun latest_filled :: "libs \<Rightarrow> document_store \<Rightarrow> request list \<Rightarrow> jsstring \<Rightarrow> bytes option" where
  "latest_filled L s [] k = None"
| "latest_filled L s (r # rs) k =
     (case latest_filled L (handle L s r) rs k of
        Some x \<Rightarrow> Some x
      | None \<Rightarrow> stored_by L s r k)"


section \<open>Notions of the statements\<close>

text \<open>
  The expression that the pattern of a key denotes when the key stands for itself:
  \<^verbatim>\<open>\{\{\s*\<close>, the code units of the key, \<^verbatim>\<open>\s*\}\}\<close>.
\<close>

definition key_regex :: "jsstring \<Rightarrow> regex" where
  "key_regex key =
     lit (str ''{{'') @ [Atom StarG Space] @ lit key @ [Atom StarG Space] @ lit (str ''}}'')"

text \<open>What \<^verbatim>\<open>escapeRegExp\<close> and \<^verbatim>\<open>encodeXml\<close> write for one code unit.\<close>

definition escape_unit :: "nat \<Rightarrow> jsstring" where
  "escape_unit c = (if c \<in> set syntax_chars then [92, c] else [c])"

definition xml_entity :: "nat \<Rightarrow> jsstring" where
  "xml_entity c =
     (if c = 38 then str ''&amp;'' else if c = 60 then str ''&lt;''
      else if c = 62 then str ''&gt;'' else if c = 34 then str ''&quot;''
      else if c = 39 then str ''&apos;'' else [c])"

text \<open>
  \<open>curly_token xml k\<close>: the document holds \<open>{{\<close>, a text without braces and \<open>}}\<close> in a row,
  and \<open>k\<close> is that text trimmed.
\<close>

definition curly_token :: "jsstring \<Rightarrow> jsstring \<Rightarrow> bool" where
  "curly_token xml k \<longleftrightarrow>
     (\<exists>pre G post. xml = pre @ str ''{{'' @ G @ str ''}}'' @ post \<and>
        123 \<notin> set G \<and> 125 \<notin> set G \<and> trim G = k)"

definition good :: "jsstring \<Rightarrow> placeholder \<Rightarrow> bool" where
  "good xml q \<longleftrightarrow> label q = id' q \<and> id' q \<noteq> [] \<and> curly_token xml (id' q)"

text \<open>
  \<open>token_at k s\<close>: the text \<open>s\<close> begins with a curly token whose trimmed inner text is \<open>k\<close>.
  \<open>tokens_filled k E s out\<close>: \<open>out\<close> is \<open>s\<close> with every such token replaced by \<open>E\<close>, from left to
  right, and every other code unit copied.
\<close>

definition token_at :: "jsstring \<Rightarrow> jsstring \<Rightarrow> bool" where
  "token_at k s \<longleftrightarrow>
     (\<exists>G t. s = str ''{{'' @ G @ str ''}}'' @ t \<and> 123 \<notin> set G \<and> 125 \<notin> set G \<and> trim G = k)"

inductive tokens_filled :: "jsstring \<Rightarrow> jsstring \<Rightarrow> jsstring \<Rightarrow> jsstring \<Rightarrow> bool" for k E where
  nil: "tokens_filled k E [] []"
| copy: "\<not> token_at k (c # cs) \<Longrightarrow> tokens_filled k E cs out \<Longrightarrow> tokens_filled k E (c # cs) (c # out)"
| fill: "123 \<notin> set G \<Longrightarrow> 125 \<notin> set G \<Longrightarrow> trim G = k \<Longrightarrow> tokens_filled k E t out \<Longrightarrow>
     tokens_filled k E (str ''{{'' @ G @ str ''}}'' @ t) (E @ out)"

section \<open>Example inputs\<close>

text \<open>
  A toy container for the closed examples below: a document is the text of its
  \<^verbatim>\<open>word/document.xml\<close>, one byte for each code unit; the renderer strips the tags and
  rejects a document of fewer than four bytes.
\<close>

definition example_libs :: libs where
  "example_libs =
     \<lparr>loadAsync = (\<lambda>b. if b = [] then None
                       else Some [document_xml \<mapsto> ZipObject (Some (map unat b))]),
      generateAsync = (\<lambda>z. case z document_xml of
                             Some (ZipObject (Some x)) \<Rightarrow> Some (map of_nat x)
                           | _ \<Rightarrow> None),
      convertToHtml = (\<lambda>b. if length b < 4 then None else Some (stripXml (map unat b)))\<rparr>"

definition example_file :: upload_file where
  "example_file = \<lparr>originalname = str ''A.DOCX'', buffer = map of_nat (str ''{{a}}'')\<rparr>"

definition plain_file :: upload_file where
  "plain_file = \<lparr>originalname = str ''b.docx'', buffer = map of_nat (str ''Hello'')\<rparr>"

definition plain_document :: stored_document where
  "plain_document =
     \<lparr>originalBuffer = map of_nat (str ''Hello''), previewHtml = str ''Hello'',
      placeholders = [], filledBuffer = None, filledHtml = None, lastValues = JObject []\<rparr>"

definition example_document :: stored_document where
  "example_document =
     \<lparr>originalBuffer = map of_nat (str ''{{a}}''), previewHtml = str ''{{a}}'',
      placeholders = [\<lparr>id' = str ''a'', label = str ''a'', context' = str ''{{a}}''\<rparr>],
      filledBuffer = None, filledHtml = None, lastValues = JObject []\<rparr>"

definition example_filled :: stored_document where
  "example_filled =
     example_document
       \<lparr>filledBuffer := Some (map of_nat (str ''Acme'')), filledHtml := Some (str ''Acme''),
        lastValues := JObject [(str ''a'', JString (str ''Acme''))]\<rparr>"

definition example_body :: "string \<Rightarrow> finalize_body" where
  "example_body v =
     \<lparr>docId = Some (JString (str ''d1'')),
      values' = Some (JObject [(str ''a'', JString (str v))])\<rparr>"



section \<open>Evaluation\<close>

lemma str_simps: "str [] = []" "str (c # cs) = of_char c # str cs"
  by (simp_all add: str_def)

lemmas eval_defs = str_simps bs_def lit_def rx_match_def rx_exec_def replace_def is_space_def
  trim_def capture_def curly_regex_def encodeXml_def escapeRegExp_def stripXml_def
  decodeXmlEntities_def extractContextSnippet_def extractPlaceholders_def syntax_chars_def Let_def

lemmas handler_defs = finalize_def upload_def download_def store_get_def failed_finalize_def
  compileRegExp_def placeholderSource_def token1_def escaped_def quantified_def document_xml_def
  endsWith_def toLowerCase_def example_libs_def example_document_def example_filled_def
  example_body_def example_file_def plain_file_def plain_document_def

lemma example_upload:
  "upload example_libs Map.empty (Some example_file) (str ''d1'') =
     ([str ''d1'' \<mapsto> example_document],
      Inr (UploadOk (str ''d1'') (placeholders example_document) (str ''{{a}}'')))"
  by (simp add: handler_defs eval_defs)

lemma example_finalize_ok:
  "finalize example_libs [str ''d1'' \<mapsto> example_document] (example_body ''Acme'') =
     ([str ''d1'' \<mapsto> example_filled], Inr (FinalizeOk (str ''d1'') (str ''Acme'')))"
  by (simp add: handler_defs eval_defs)



lemma example_finalize_fails:
  "finalize example_libs [str ''d1'' \<mapsto> example_filled] (example_body ''x'') =
     ([str ''d1'' \<mapsto> example_filled], Inl (HttpError 500 (str ''Failed to finalize document'')))"
  by (simp add: handler_defs eval_defs)

section \<open>Facts about the matcher\<close>

lemma rx_paths_Once:
  "rx_paths (Atom Once k # r) s =
     (case s of [] \<Rightarrow> [] | c # cs \<Rightarrow> if cls_mem k c then map ((#) 1) (rx_paths r cs) else [])"
  by (cases s) auto

lemma rx_paths_lit:
  "rx_paths (lit w @ r) s =
     (if take (length w) s = w \<and> length w \<le> length s
      then map ((@) (replicate (length w) 1)) (rx_paths r (drop (length w) s)) else [])"
proof (induction w arbitrary: s)
  case Nil
  then show ?case by (simp add: lit_def map_idI)
next
  case (Cons c w)
  have l: "lit (c # w) = Atom Once (Ch c) # lit w"
    by (simp add: lit_def)
  show ?case
  proof (cases s)
    case Nil
    then show ?thesis by (simp add: l)
  next
    case (Cons d ds)
    with Cons.IH [of ds] show ?thesis
      by (auto simp: l rx_paths_Once)
  qed
qed

lemma set_rx_paths_Cons:
  "set (rx_paths (a # r) s) =
     {n # q | n q. n \<in> set (atom_lens a s) \<and> q \<in> set (rx_paths r (drop n s))}"
  by auto

lemma set_atom_lens_StarG:
  "set (atom_lens (Atom StarG k) s) = {n. n \<le> length (takeWhile (cls_mem k) s)}"
  by (auto simp: less_Suc_eq_le)

lemma set_atom_lens_Plus:
  "set (atom_lens (Atom PlusL k) s) = {n. 0 < n \<and> n \<le> length (takeWhile (cls_mem k) s)}"
  "set (atom_lens (Atom PlusG k) s) = {n. 0 < n \<and> n \<le> length (takeWhile (cls_mem k) s)}"
  by (auto simp: less_Suc_eq_le)

text \<open>A run of at most the length of the longest prefix within a class lies in the class.\<close>

lemma le_takeWhile_iff:
  "n \<le> length (takeWhile P s) \<longleftrightarrow> n \<le> length s \<and> (\<forall>c \<in> set (take n s). P c)"
proof (induction s arbitrary: n)
  case Nil
  then show ?case by simp
next
  case (Cons c cs)
  then show ?case
    by (cases n) auto
qed

lemma paths_Nil_iff: "p \<in> set (rx_paths [] s) \<longleftrightarrow> p = []"
  by simp

lemma paths_lit_iff:
  "p \<in> set (rx_paths (lit w @ r) s) \<longleftrightarrow>
     (\<exists>q t. s = w @ t \<and> p = replicate (length w) 1 @ q \<and> q \<in> set (rx_paths r t))"
proof
  assume "p \<in> set (rx_paths (lit w @ r) s)"
  then have w: "take (length w) s = w" and q: "p \<in> (@) (replicate (length w) 1) ` set (rx_paths r (drop (length w) s))"
    by (auto simp: rx_paths_lit split: if_splits)
  from w have "s = w @ drop (length w) s"
    by (metis append_take_drop_id)
  with q show "\<exists>q t. s = w @ t \<and> p = replicate (length w) 1 @ q \<and> q \<in> set (rx_paths r t)"
    by blast
next
  assume "\<exists>q t. s = w @ t \<and> p = replicate (length w) 1 @ q \<and> q \<in> set (rx_paths r t)"
  then show "p \<in> set (rx_paths (lit w @ r) s)"
    by (auto simp: rx_paths_lit)
qed

lemma run_iff:
  "n \<le> length (takeWhile P s) \<and> q \<in> Q (drop n s) \<longleftrightarrow>
     (\<exists>a t. s = a @ t \<and> (\<forall>c \<in> set a. P c) \<and> n = length a \<and> q \<in> Q t)"
proof
  assume l: "n \<le> length (takeWhile P s) \<and> q \<in> Q (drop n s)"
  then have "n \<le> length s" "\<forall>c \<in> set (take n s). P c"
    by (simp_all add: le_takeWhile_iff)
  with l have "s = take n s @ drop n s \<and> (\<forall>c \<in> set (take n s). P c) \<and> n = length (take n s) \<and> q \<in> Q (drop n s)"
    by simp
  then show "\<exists>a t. s = a @ t \<and> (\<forall>c \<in> set a. P c) \<and> n = length a \<and> q \<in> Q t"
    by blast
next
  assume "\<exists>a t. s = a @ t \<and> (\<forall>c \<in> set a. P c) \<and> n = length a \<and> q \<in> Q t"
  then show "n \<le> length (takeWhile P s) \<and> q \<in> Q (drop n s)"
    by (auto simp: le_takeWhile_iff)
qed

lemma paths_StarG_iff:
  "p \<in> set (rx_paths (Atom StarG k # r) s) \<longleftrightarrow>
     (\<exists>a t q. s = a @ t \<and> (\<forall>c \<in> set a. cls_mem k c) \<and> p = length a # q \<and>
        q \<in> set (rx_paths r t))"
proof -
  have "p \<in> set (rx_paths (Atom StarG k # r) s) \<longleftrightarrow>
      (\<exists>n q. p = n # q \<and> (n \<le> length (takeWhile (cls_mem k) s) \<and> q \<in> set (rx_paths r (drop n s))))"
    unfolding set_rx_paths_Cons set_atom_lens_StarG by blast
  also have "\<dots> \<longleftrightarrow> (\<exists>a t q. s = a @ t \<and> (\<forall>c \<in> set a. cls_mem k c) \<and> p = length a # q \<and>
        q \<in> set (rx_paths r t))"
    unfolding run_iff [where Q = "\<lambda>t. set (rx_paths r t)"] by blast
  finally show ?thesis .
qed

lemma paths_PlusL_iff:
  "p \<in> set (rx_paths (Atom PlusL k # r) s) \<longleftrightarrow>
     (\<exists>a t q. s = a @ t \<and> a \<noteq> [] \<and> (\<forall>c \<in> set a. cls_mem k c) \<and> p = length a # q \<and>
        q \<in> set (rx_paths r t))"
proof -
  have "p \<in> set (rx_paths (Atom PlusL k # r) s) \<longleftrightarrow>
      (\<exists>n q. p = n # q \<and> 0 < n \<and> (n \<le> length (takeWhile (cls_mem k) s) \<and> q \<in> set (rx_paths r (drop n s))))"
    unfolding set_rx_paths_Cons set_atom_lens_Plus by blast
  also have "\<dots> \<longleftrightarrow> (\<exists>a t q. s = a @ t \<and> a \<noteq> [] \<and> (\<forall>c \<in> set a. cls_mem k c) \<and> p = length a # q \<and>
        q \<in> set (rx_paths r t))"
    unfolding run_iff [where Q = "\<lambda>t. set (rx_paths r t)"] by auto
  finally show ?thesis .
qed

lemma paths_PlusG_iff:
  "p \<in> set (rx_paths (Atom PlusG k # r) s) \<longleftrightarrow>
     (\<exists>a t q. s = a @ t \<and> a \<noteq> [] \<and> (\<forall>c \<in> set a. cls_mem k c) \<and> p = length a # q \<and>
        q \<in> set (rx_paths r t))"
proof -
  have "p \<in> set (rx_paths (Atom PlusG k # r) s) \<longleftrightarrow>
      (\<exists>n q. p = n # q \<and> 0 < n \<and> (n \<le> length (takeWhile (cls_mem k) s) \<and> q \<in> set (rx_paths r (drop n s))))"
    unfolding set_rx_paths_Cons set_atom_lens_Plus by blast
  also have "\<dots> \<longleftrightarrow> (\<exists>a t q. s = a @ t \<and> a \<noteq> [] \<and> (\<forall>c \<in> set a. cls_mem k c) \<and> p = length a # q \<and>
        q \<in> set (rx_paths r t))"
    unfolding run_iff [where Q = "\<lambda>t. set (rx_paths r t)"] by auto
  finally show ?thesis .
qed

lemma key_paths_iff:
  "p \<in> set (rx_paths (key_regex key) s) \<longleftrightarrow>
     (\<exists>a b t. s = str ''{{'' @ a @ key @ b @ str ''}}'' @ t \<and>
        (\<forall>c \<in> set a. is_space c) \<and> (\<forall>c \<in> set b. is_space c) \<and>
        p = [1, 1, length a] @ replicate (length key) 1 @ [length b, 1, 1])"
proof -
  have "p \<in> set (rx_paths (key_regex key) s) \<longleftrightarrow>
      p \<in> set (rx_paths (lit (str ''{{'') @ Atom StarG Space # lit key @ Atom StarG Space # lit (str ''}}'') @ []) s)"
    by (simp add: key_regex_def)
  also have "\<dots> \<longleftrightarrow> (\<exists>a b t. s = str ''{{'' @ a @ key @ b @ str ''}}'' @ t \<and>
        (\<forall>c \<in> set a. is_space c) \<and> (\<forall>c \<in> set b. is_space c) \<and>
        p = [1, 1, length a] @ replicate (length key) 1 @ [length b, 1, 1])"
    unfolding paths_lit_iff paths_StarG_iff paths_Nil_iff
    by (auto simp: str_def) blast
  finally show ?thesis .
qed

lemma curly_paths_iff:
  "p \<in> set (rx_paths curly_regex s) \<longleftrightarrow>
     (\<exists>a g b t. s = str ''{{'' @ a @ g @ b @ str ''}}'' @ t \<and>
        (\<forall>c \<in> set a. is_space c) \<and> g \<noteq> [] \<and> (\<forall>c \<in> set g. c \<noteq> 123 \<and> c \<noteq> 125) \<and>
        (\<forall>c \<in> set b. is_space c) \<and>
        p = [1, 1, length a, length g, length b, 1, 1])"
proof -
  have "p \<in> set (rx_paths curly_regex s) \<longleftrightarrow>
      p \<in> set (rx_paths (lit (str ''{{'') @ Atom StarG Space # Atom PlusL (NoneOf (str ''{}'')) # Atom StarG Space # lit (str ''}}'') @ []) s)"
    by (simp add: curly_regex_def)
  also have "\<dots> \<longleftrightarrow> (\<exists>a g b t. s = str ''{{'' @ a @ g @ b @ str ''}}'' @ t \<and>
        (\<forall>c \<in> set a. is_space c) \<and> g \<noteq> [] \<and> (\<forall>c \<in> set g. c \<noteq> 123 \<and> c \<noteq> 125) \<and>
        (\<forall>c \<in> set b. is_space c) \<and>
        p = [1, 1, length a, length g, length b, 1, 1])"
    unfolding paths_lit_iff paths_StarG_iff paths_PlusL_iff paths_Nil_iff
    by (auto simp: str_def) blast
  finally show ?thesis .
qed

section \<open>Facts about the pattern of a key\<close>

lemma rx_match_single:
  "rx_match [Atom Once k] s =
     (case s of [] \<Rightarrow> None | c # _ \<Rightarrow> if cls_mem k c then Some [1] else None)"
  by (cases s) (auto simp: rx_match_def)

lemma replace_single:
  assumes "\<And>m pre post. getSubstitution m pre post t = g m"
  shows "replace_from [Atom Once k] t pre s =
           concat (map (\<lambda>c. if cls_mem k c then g [c] else [c]) s)"
  by (induction s arbitrary: pre) (simp_all add: rx_match_single assms)

lemma getSubstitution_plain: "36 \<notin> set t \<Longrightarrow> getSubstitution m pre post t = t"
  by (induction m pre post t rule: getSubstitution.induct) auto

lemma replace_char:
  "36 \<notin> set t \<Longrightarrow> replace s (lit [a]) t = concat (map (\<lambda>c. if c = a then t else [c]) s)"
  unfolding replace_def lit_def
  by (simp add: replace_single [where g = "\<lambda>m. t"] getSubstitution_plain)

lemma set_syntax_chars:
  "set syntax_chars = {46, 42, 43, 63, 94, 36, 123, 125, 40, 41, 124, 91, 93, 92}"
  by (simp add: syntax_chars_def str_def)

lemma escapeRegExp_eq: "escapeRegExp v = concat (map escape_unit v)"
proof -
  have "getSubstitution m pre post (bs ''$&'') = 92 # m" for m pre post
    by (simp add: bs_def str_def)
  then show ?thesis
    unfolding escapeRegExp_def replace_def escape_unit_def
    by (simp add: replace_single [where g = "\<lambda>m. 92 # m"])
qed

lemma tokens_plain: "c \<noteq> 92 \<Longrightarrow> tokens (c # r) = token1 c # tokens r"
  by (cases r) simp_all

lemma tokens_escaped: "tokens (92 # d # r) = escaped d # tokens r"
  by simp

lemma tokens_escape_unit: "tokens (escape_unit c @ r) = TChar c # tokens r"
proof (cases "c \<in> set syntax_chars")
  case True
  then have "escaped c = TChar c"
    by (auto simp: escaped_def set_syntax_chars)
  with True show ?thesis
    by (simp add: escape_unit_def)
next
  case False
  then have "c \<noteq> 92" and "token1 c = TChar c"
    by (auto simp: token1_def set_syntax_chars)
  with False show ?thesis
    by (simp add: escape_unit_def tokens_plain)
qed

lemma tokens_escapeRegExp: "tokens (escapeRegExp key @ r) = map TChar key @ tokens r"
  unfolding escapeRegExp_eq
  by (induction key) (simp_all add: tokens_escape_unit)

lemma atoms_Once:
  "(case ts of [] \<Rightarrow> True | t' # _ \<Rightarrow> t' \<noteq> TStar \<and> t' \<noteq> TPlus) \<Longrightarrow>
     atoms (t # ts) = quantified Once t (atoms ts)"
proof (cases ts)
  case Nil
  then show ?thesis by simp
next
  case (Cons t' ts')
  assume "case ts of [] \<Rightarrow> True | t' # _ \<Rightarrow> t' \<noteq> TStar \<and> t' \<noteq> TPlus"
  with Cons show ?thesis
    by (cases t') simp_all
qed

lemma atoms_StarG:
  "(case ts of [] \<Rightarrow> True | t' # _ \<Rightarrow> t' \<noteq> TQuest) \<Longrightarrow>
     atoms (t # TStar # ts) = quantified StarG t (atoms ts)"
proof (cases ts)
  case Nil
  then show ?thesis by simp
next
  case (Cons t' ts')
  assume "case ts of [] \<Rightarrow> True | t' # _ \<Rightarrow> t' \<noteq> TQuest"
  with Cons show ?thesis
    by (cases t') simp_all
qed

lemma atoms_chars:
  "(case ts of [] \<Rightarrow> True | t' # _ \<Rightarrow> t' \<noteq> TStar \<and> t' \<noteq> TPlus) \<Longrightarrow>
     atoms (map TChar w @ ts) = map_option ((@) (lit w)) (atoms ts)"
proof (induction w)
  case Nil
  then show ?case by (simp add: lit_def option.map_ident map_option.identity)
next
  case (Cons c w)
  have "case map TChar w @ ts of [] \<Rightarrow> True | t' # _ \<Rightarrow> t' \<noteq> TStar \<and> t' \<noteq> TPlus"
    using Cons.prems by (cases w) simp_all
  then have "atoms (TChar c # map TChar w @ ts) = quantified Once (TChar c) (atoms (map TChar w @ ts))"
    by (rule atoms_Once)
  with Cons show ?case
    by (cases "atoms ts") (simp_all add: quantified_def lit_def)
qed

lemma compile_placeholderSource:
  "compileRegExp (placeholderSource key) = Some (key_regex key)"
proof -
  have "tokens (placeholderSource key) =
      [TChar 123, TChar 123, TSpace, TStar] @ map TChar key @ [TSpace, TStar, TChar 125, TChar 125]"
    (is "?tokens")
    by (simp add: placeholderSource_def bs_def str_def tokens_plain tokens_escapeRegExp
        escaped_def token1_def set_syntax_chars)
  have "atoms ([TSpace, TStar, TChar 125, TChar 125]) =
      Some ([Atom StarG Space] @ lit (str ''}}''))"
    by (simp add: quantified_def lit_def str_def)
  then have "atoms (map TChar key @ [TSpace, TStar, TChar 125, TChar 125]) =
      Some (lit key @ [Atom StarG Space] @ lit (str ''}}''))"
    by (simp add: atoms_chars)
  moreover have "case map TChar key @ [TSpace, TStar, TChar 125, TChar 125] of
      [] \<Rightarrow> True | t' # _ \<Rightarrow> t' \<noteq> TQuest"
    by (cases key) simp_all
  ultimately have "atoms ([TChar 123, TChar 123, TSpace, TStar] @ map TChar key @ [TSpace, TStar, TChar 125, TChar 125]) =
      Some (key_regex key)"
    by (simp add: quantified_def key_regex_def lit_def str_def atoms_Once atoms_StarG)
  with \<open>?tokens\<close> show ?thesis
    by (simp add: compileRegExp_def)
qed


lemma substitute_Cons:
  "substitute ((key, rawValue) # rest) documentXml =
     substitute rest
       (replace documentXml (key_regex key)
          (encodeXml (case rawValue of JString s \<Rightarrow> s | _ \<Rightarrow> [])))"
  by (simp add: compile_placeholderSource Let_def)


lemma encodeXml_eq: "encodeXml v = concat (map xml_entity v)"
proof -
  have "encodeXml v =
      concat (map (\<lambda>c. if c = 39 then str ''&apos;'' else [c])
        (concat (map (\<lambda>c. if c = 34 then str ''&quot;'' else [c])
          (concat (map (\<lambda>c. if c = 62 then str ''&gt;'' else [c])
            (concat (map (\<lambda>c. if c = 60 then str ''&lt;'' else [c])
              (concat (map (\<lambda>c. if c = 38 then str ''&amp;'' else [c]) v)))))))))"
    by (simp add: encodeXml_def str_simps replace_char cong: if_cong)
  also have "\<dots> = concat (map xml_entity v)"
    by (induction v) (simp_all add: xml_entity_def str_simps cong: if_cong)
  finally show ?thesis .
qed



section \<open>Facts about discovery\<close>

lemma trim_spaces_left: "\<forall>c \<in> set a. is_space c \<Longrightarrow> trim (a @ s) = trim s"
proof -
  assume "\<forall>c \<in> set a. is_space c"
  then have "dropWhile is_space (a @ s) = dropWhile is_space s"
    by (intro dropWhile_append2) simp
  then show ?thesis
    by (simp only: trim_def)
qed

lemma trim_spaces_right: "\<forall>c \<in> set b. is_space c \<Longrightarrow> trim (s @ b) = trim s"
proof (cases "\<forall>c \<in> set s. is_space c")
  case True
  assume "\<forall>c \<in> set b. is_space c"
  with True have e: "dropWhile is_space (s @ b) = []" "dropWhile is_space s = []"
    by (simp_all add: dropWhile_eq_Nil_conv)
  show ?thesis
    unfolding trim_def e by simp
next
  case False
  assume b: "\<forall>c \<in> set b. is_space c"
  from False have e: "dropWhile is_space (s @ b) = dropWhile is_space s @ b"
    by (auto simp: dropWhile_append1)
  have r: "dropWhile is_space (rev b @ u) = dropWhile is_space u" for u
    using b by (intro dropWhile_append2) simp
  show ?thesis
    unfolding trim_def e by (simp add: r)
qed

lemma braces_not_space: "\<not> is_space 123" "\<not> is_space 125"
  by (simp_all add: is_space_def)

lemma curly_match_token:
  assumes "rx_match curly_regex s = Some p"
  shows "\<exists>G t. s = str ''{{'' @ G @ str ''}}'' @ t \<and> 123 \<notin> set G \<and> 125 \<notin> set G \<and> G \<noteq> [] \<and>
           sum_list p = length G + 4 \<and> trim (capture 3 p s) = trim G"
proof -
  from assms have "p \<in> set (rx_paths curly_regex s)"
    by (rule rx_match_in_paths)
  then obtain a g b t where s: "s = str ''{{'' @ a @ g @ b @ str ''}}'' @ t"
    and a: "\<forall>c \<in> set a. is_space c" and g: "g \<noteq> []" "\<forall>c \<in> set g. c \<noteq> 123 \<and> c \<noteq> 125"
    and b: "\<forall>c \<in> set b. is_space c" and p: "p = [1, 1, length a, length g, length b, 1, 1]"
    unfolding curly_paths_iff by blast
  have "capture 3 p s = g"
    by (simp add: capture_def p s str_def)
  moreover have "trim (a @ g @ b) = trim g"
    using a b trim_spaces_left [OF a, of "g @ b"] trim_spaces_right [OF b, of g] by simp
  moreover have "123 \<notin> set (a @ g @ b)" "125 \<notin> set (a @ g @ b)"
    using a b g braces_not_space by auto
  moreover have "sum_list p = length (a @ g @ b) + 4"
    by (simp add: p)
  moreover have "s = str ''{{'' @ (a @ g @ b) @ str ''}}'' @ t"
    by (simp add: s)
  ultimately show ?thesis
    using g(1) by (intro exI [of _ "a @ g @ b"] exI [of _ t]) simp
qed

lemma curly_token_match:
  assumes "s = str ''{{'' @ G @ str ''}}'' @ t" "123 \<notin> set G" "125 \<notin> set G" "G \<noteq> []"
  shows "rx_match curly_regex s \<noteq> None"
proof -
  have "[1, 1, 0, length G, 0, 1, 1] \<in> set (rx_paths curly_regex s)"
    unfolding curly_paths_iff
    using assms by (intro exI [of _ "[]"] exI [of _ G] exI [of _ t]) auto
  then show ?thesis
    by (auto simp: rx_match_None_iff)
qed

text \<open>Two brace-free texts that are each followed by a closing brace in the same string are equal.\<close>

lemma same_inner:
  fixes G C :: "nat list"
  assumes "G @ 125 # t = C @ 125 # u" "125 \<notin> set G" "125 \<notin> set C"
  shows "G = C"
proof -
  have "takeWhile (\<lambda>c. c \<noteq> 125) (G @ 125 # t) = G"
    using assms(2) by (induction G) auto
  moreover have "takeWhile (\<lambda>c. c \<noteq> 125) (C @ 125 # u) = C"
    using assms(3) by (induction C) auto
  ultimately show ?thesis
    using assms(1) by simp
qed

text \<open>Inside a token, after its first brace, no position starts another token.\<close>

lemma token_interior:
  assumes s: "s = str ''{{'' @ G @ str ''}}'' @ t" and G: "123 \<notin> set G" "G \<noteq> []"
    and n: "0 < n" "n < length G + 4"
  shows "\<not> (s ! n = 123 \<and> s ! Suc n = 123)"
proof -
  have s': "s = 123 # 123 # G @ 125 # 125 # t"
    by (simp add: s str_def)
  have inner: "s ! m \<noteq> 123" if "2 \<le> m" "m < length G + 4" for m
  proof -
    from that(1) obtain k where m: "m = Suc (Suc k)"
      by (metis Suc_le_D Suc_le_mono numeral_2_eq_2)
    have sm: "s ! m = (G @ 125 # 125 # t) ! k"
      by (simp add: s' m)
    show ?thesis
    proof (cases "k < length G")
      case True
      with G(1) show ?thesis
        by (auto simp: sm nth_append dest: nth_mem)
    next
      case False
      with that(2) m have "k - length G < 2"
        by simp
      with False have "(G @ 125 # 125 # t) ! k = 125"
        by (auto simp: nth_append nth_Cons' less_2_cases_iff)
      then show ?thesis
        by (simp add: sm)
    qed
  qed
  show ?thesis
  proof (cases "n = 1")
    case True
    with G(2) have "2 \<le> Suc n" "Suc n < length G + 4"
      by (simp_all add: Suc_lessI)
    from inner [OF this] show ?thesis by simp
  next
    case False
    with n have "2 \<le> n" by simp
    from inner [OF this n(2)] show ?thesis by simp
  qed
qed

lemma extract_loop_None:
  "rx_exec curly_regex xml i = None \<Longrightarrow> extract_loop xml i ps seen = ps"
  by simp

lemma extract_loop_Some:
  "rx_exec curly_regex xml i = Some (j, p) \<Longrightarrow>
     extract_loop xml i ps seen =
       (if trim (capture 3 p (drop j xml)) = [] \<or> trim (capture 3 p (drop j xml)) \<in> seen
        then extract_loop xml (j + sum_list p) ps seen
        else extract_loop xml (j + sum_list p)
               (ps @ [\<lparr>id' = trim (capture 3 p (drop j xml)),
                       label = trim (capture 3 p (drop j xml)),
                       context' = extractContextSnippet xml j (sum_list p)\<rparr>])
               (insert (trim (capture 3 p (drop j xml))) seen))"
  by (simp add: Let_def)

declare extract_loop.simps [simp del]

text \<open>What a match found by the loop is: a token of the document, at the position found.\<close>

lemma exec_token:
  assumes "rx_exec curly_regex xml i = Some (j, p)"
  shows "\<exists>G t. xml = take j xml @ str ''{{'' @ G @ str ''}}'' @ t \<and> 123 \<notin> set G \<and> 125 \<notin> set G \<and>
           G \<noteq> [] \<and> sum_list p = length G + 4 \<and> trim (capture 3 p (drop j xml)) = trim G"
proof -
  from curly_match_token [OF rx_exec_Some(3) [OF assms]] obtain G t where
    d: "drop j xml = str ''{{'' @ G @ str ''}}'' @ t" and
    G: "123 \<notin> set G" "125 \<notin> set G" "G \<noteq> []" "sum_list p = length G + 4"
      "trim (capture 3 p (drop j xml)) = trim G"
    by blast
  have "xml = take j xml @ drop j xml"
    by simp
  with d have "xml = take j xml @ str ''{{'' @ G @ str ''}}'' @ t"
    by simp
  with G show ?thesis
    by blast
qed

lemma extract_loop_inv:
  "seen = id' ` set ps \<Longrightarrow> distinct (map id' ps) \<Longrightarrow> \<forall>q \<in> set ps. good xml q \<Longrightarrow>
     distinct (map id' (extract_loop xml i ps seen)) \<and>
     (\<forall>q \<in> set (extract_loop xml i ps seen). good xml q) \<and>
     set ps \<subseteq> set (extract_loop xml i ps seen)"
proof (induction "length xml - i" arbitrary: i ps seen rule: less_induct)
  case less
  show ?case
  proof (cases "rx_exec curly_regex xml i")
    case None
    with less.prems show ?thesis
      by (simp add: extract_loop_None)
  next
    case (Some jp)
    obtain j p where jp: "jp = (j, p)" by (cases jp)
    note e = Some [unfolded jp]
    let ?k = "trim (capture 3 p (drop j xml))"
    let ?q = "\<lparr>id' = ?k, label = ?k, context' = extractContextSnippet xml j (sum_list p)\<rparr>"
    from curly_exec_progress [OF e] have dec: "length xml - (j + sum_list p) < length xml - i"
      by simp
    from exec_token [OF e] have tok: "curly_token xml ?k"
      unfolding curly_token_def by metis
    show ?thesis
    proof (cases "?k = [] \<or> ?k \<in> seen")
      case True
      with less.hyps [OF dec less.prems] show ?thesis
        by (simp add: extract_loop_Some [OF e])
    next
      case False
      with less.prems tok have
        "insert ?k seen = id' ` set (ps @ [?q])" "distinct (map id' (ps @ [?q]))"
        "\<forall>q \<in> set (ps @ [?q]). good xml q"
        by (auto simp: good_def)
      from less.hyps [OF dec this] False show ?thesis
        by (simp add: extract_loop_Some [OF e])
    qed
  qed
qed

lemma extract_loop_complete:
  assumes xml: "xml = pre @ str ''{{'' @ C @ str ''}}'' @ post"
    and C: "123 \<notin> set C" "125 \<notin> set C" "trim C \<noteq> []"
  shows "i \<le> length pre \<Longrightarrow> seen = id' ` set ps \<Longrightarrow> distinct (map id' ps) \<Longrightarrow>
     \<forall>q \<in> set ps. good xml q \<Longrightarrow> trim C \<in> id' ` set (extract_loop xml i ps seen)"
proof (induction "length xml - i" arbitrary: i ps seen rule: less_induct)
  case less
  have Cne: "C \<noteq> []"
    using C(3) by (auto simp: trim_def)
  have at: "drop (length pre) xml = str ''{{'' @ C @ str ''}}'' @ post"
    by (simp add: xml)
  from curly_token_match [OF at C(1,2) Cne] have m: "rx_match curly_regex (drop (length pre) xml) \<noteq> None" .
  have le: "length pre \<le> length xml"
    by (simp add: xml)
  show ?case
  proof (cases "rx_exec curly_regex xml i")
    case None
    from rx_exec_None [OF None less.prems(1) le] m show ?thesis
      by simp
  next
    case (Some jp)
    obtain j p where jp: "jp = (j, p)" by (cases jp)
    note e = Some [unfolded jp]
    let ?k = "trim (capture 3 p (drop j xml))"
    let ?q = "\<lparr>id' = ?k, label = ?k, context' = extractContextSnippet xml j (sum_list p)\<rparr>"
    from curly_exec_progress [OF e] have dec: "length xml - (j + sum_list p) < length xml - i"
      by simp
    from exec_token [OF e] obtain G t where
      x: "xml = take j xml @ str ''{{'' @ G @ str ''}}'' @ t" and
      G: "123 \<notin> set G" "125 \<notin> set G" "G \<noteq> []" "sum_list p = length G + 4" "?k = trim G"
      by blast
    have tok: "curly_token xml ?k"
      unfolding curly_token_def using x G by metis
    have jle: "j \<le> length pre"
    proof (rule ccontr)
      assume "\<not> j \<le> length pre"
      with rx_exec_Some(4) [OF e less.prems(1)] m show False
        by simp
    qed
    have inv: "distinct (map id' (extract_loop xml i' ps' seen')) \<and>
        (\<forall>q \<in> set (extract_loop xml i' ps' seen'). good xml q) \<and>
        set ps' \<subseteq> set (extract_loop xml i' ps' seen')"
      if "seen' = id' ` set ps'" "distinct (map id' ps')" "\<forall>q \<in> set ps'. good xml q"
      for i' ps' seen'
      using that by (rule extract_loop_inv)
    show ?thesis
    proof (cases "j = length pre")
      case True
      from rx_exec_Some(2) [OF e] have jl: "j \<le> length xml" .
      from x have "drop j xml = str ''{{'' @ G @ str ''}}'' @ t"
        using jl by (metis append_eq_conv_conj length_take min.absorb2)
      with at True have "G @ 125 # 125 # t = C @ 125 # 125 # post"
        by (simp add: str_def)
      from same_inner [OF this G(2) C(2)] G(5) have k: "?k = trim C"
        by simp
      show ?thesis
      proof (cases "?k \<in> seen")
        case True
        with k less.prems(2) have "trim C \<in> id' ` set ps"
          by simp
        with inv [OF less.prems(2-4), of i] show ?thesis
          by blast
      next
        case False
        with less.prems tok C(3) k have new:
          "insert ?k seen = id' ` set (ps @ [?q])" "distinct (map id' (ps @ [?q]))"
          "\<forall>q \<in> set (ps @ [?q]). good xml q"
          by (auto simp: good_def)
        from inv [OF new, of "j + sum_list p"] have "?q \<in> set (extract_loop xml (j + sum_list p) (ps @ [?q]) (insert ?k seen))"
          by auto
        then have "?k \<in> id' ` set (extract_loop xml (j + sum_list p) (ps @ [?q]) (insert ?k seen))"
          by force
        with False C(3) k show ?thesis
          by (simp add: extract_loop_Some [OF e])
      qed
    next
      case False
      with jle have lt: "j < length pre" by simp
      have next_le: "j + sum_list p \<le> length pre"
      proof (rule ccontr)
        assume "\<not> j + sum_list p \<le> length pre"
        with lt G(4) have n: "0 < length pre - j" "length pre - j < length G + 4"
          by simp_all
        have d: "drop j xml = str ''{{'' @ G @ str ''}}'' @ t"
          using x rx_exec_Some(2) [OF e] by (metis append_eq_conv_conj length_take min.absorb2)
        have "drop j xml ! (length pre - j) = 123 \<and> drop j xml ! Suc (length pre - j) = 123"
        proof -
          have "drop j xml ! (length pre - j) = xml ! length pre"
            "drop j xml ! Suc (length pre - j) = xml ! Suc (length pre)"
            using lt le by simp_all
          then show ?thesis
            by (simp add: xml str_def nth_append)
        qed
        with token_interior [OF d G(1,3) n] show False
          by simp
      qed
      show ?thesis
      proof (cases "?k = [] \<or> ?k \<in> seen")
        case True
        with less.hyps [OF dec next_le less.prems(2-4)] show ?thesis
          by (simp add: extract_loop_Some [OF e])
      next
        case False
        with less.prems tok have new:
          "insert ?k seen = id' ` set (ps @ [?q])" "distinct (map id' (ps @ [?q]))"
          "\<forall>q \<in> set (ps @ [?q]). good xml q"
          by (auto simp: good_def)
        from less.hyps [OF dec next_le new] False show ?thesis
          by (simp add: extract_loop_Some [OF e])
      qed
    qed
  qed
qed

lemma extractPlaceholders_inv:
  "distinct (map id' (extractPlaceholders xml)) \<and> (\<forall>q \<in> set (extractPlaceholders xml). good xml q)"
  using extract_loop_inv [of "{}" "[]" xml 0] by (simp add: extractPlaceholders_def)

lemma extractPlaceholders_complete:
  assumes "k \<noteq> []" "curly_token xml k"
  shows "k \<in> id' ` set (extractPlaceholders xml)"
proof -
  from assms(2) obtain pre G post where x: "xml = pre @ str ''{{'' @ G @ str ''}}'' @ post"
    and G: "123 \<notin> set G" "125 \<notin> set G" "trim G = k"
    unfolding curly_token_def by blast
  from assms(1) G(3) have "trim G \<noteq> []" by simp
  from extract_loop_complete [OF x G(1,2) this, of 0 "{}" "[]"] G(3) show ?thesis
    by (simp add: extractPlaceholders_def)
qed

lemma one_of_distinct:
  "distinct (map f xs) \<Longrightarrow> k \<in> f ` set xs \<Longrightarrow> length (filter (\<lambda>q. f q = k) xs) = 1"
proof (induction xs)
  case Nil
  then show ?case by simp
next
  case (Cons x xs)
  show ?case
  proof (cases "f x = k")
    case True
    from Cons.prems(1) have "f x \<notin> f ` set xs"
      by simp
    with True have "\<forall>q \<in> set xs. f q \<noteq> k"
      by blast
    then have "filter (\<lambda>q. f q = k) xs = []"
      by (simp add: filter_empty_conv)
    with True show ?thesis by simp
  next
    case False
    with Cons show ?thesis by auto
  qed
qed

lemma example_discovery:
  "extractPlaceholders (str ''Dear {{client_name}}, sign here: $[_____]'') =
     [\<lparr>id' = str ''client_name'', label = str ''client_name'',
       context' = str ''Dear {{client_name}}, sign here: $[_____]''\<rparr>]"
  by (simp add: eval_defs extract_loop.simps)

lemma twice_discovery:
  "extractPlaceholders (str ''{{date}} {{ date }} $[date] $[date]'') =
     [\<lparr>id' = str ''date'', label = str ''date'',
       context' = str ''{{date}} {{ date }} $[date] $[date]''\<rparr>]"
  by (simp add: eval_defs extract_loop.simps)

section \<open>Facts about the handlers\<close>

lemma async_string_eq: "async_string z = Some x \<longleftrightarrow> z = ZipObject (Some x)"
  by (cases z) auto

lemma finalize_cases:
  "finalize L s body = (s', r) \<Longrightarrow>
     (s' = s \<and> (\<exists>e. r = Inl e)) \<or>
     (\<exists>k doc archive documentXml vs filledXml filled html.
        docId body = Some (JString k) \<and> values' body = Some vs \<and>
        s k = Some doc \<and> loadAsync L (originalBuffer doc) = Some archive \<and>
        archive document_xml = Some (ZipObject (Some documentXml)) \<and>
        substitute (entries vs) documentXml = Some filledXml \<and>
        generateAsync L (archive(document_xml \<mapsto> ZipObject (Some filledXml))) = Some filled \<and>
        convertToHtml L filled = Some html \<and>
        s' = s(k \<mapsto> doc\<lparr>filledBuffer := Some filled, filledHtml := Some html, lastValues := vs\<rparr>) \<and>
        r = Inr (FinalizeOk k html))"
  unfolding finalize_def failed_finalize_def store_get_def
  by (cases "docId body"; cases "values' body"; simp)
    (auto simp: async_string_eq split: option.splits prod.splits if_splits json.splits)







lemma upload_cases:
  "upload L s file k = (s', r) \<Longrightarrow>
     (s' = s \<and> (\<exists>e. r = Inl e)) \<or>
     (\<exists>f html archive documentXml.
        file = Some f \<and> convertToHtml L (buffer f) = Some html \<and>
        loadAsync L (buffer f) = Some archive \<and>
        archive document_xml = Some (ZipObject (Some documentXml)) \<and>
        s' = s(k \<mapsto> \<lparr>originalBuffer = buffer f, previewHtml = html,
                      placeholders = extractPlaceholders documentXml, filledBuffer = None,
                      filledHtml = None, lastValues = JObject []\<rparr>) \<and>
        r = Inr (UploadOk k (extractPlaceholders documentXml) html))"
  unfolding upload_def
  by (auto simp: async_string_eq Let_def split: option.splits if_splits)

lemma upload_other: "k' \<noteq> k \<Longrightarrow> fst (upload L s file k') k = s k"
proof -
  obtain s' r where u: "upload L s file k' = (s', r)" by (cases "upload L s file k'")
  assume "k' \<noteq> k"
  with upload_cases [OF u] show ?thesis by (auto simp: u)
qed

lemma download_Some:
  "s k = Some d \<Longrightarrow>
     download s k = Inr (case filledBuffer d of Some y \<Rightarrow> y | None \<Rightarrow> originalBuffer d)"
  by (simp add: download_def)

lemma run_download:
  "s k = Some d \<Longrightarrow> (\<forall>file' k'. Upload file' k' \<in> set rs \<longrightarrow> k' \<noteq> k) \<Longrightarrow>
     download (run L s rs) k =
       Inr (case latest_filled L s rs k of
              Some x \<Rightarrow> x
            | None \<Rightarrow> (case filledBuffer d of Some y \<Rightarrow> y | None \<Rightarrow> originalBuffer d))"
proof (induction rs arbitrary: s d)
  case Nil
  then show ?case by (simp add: download_Some)
next
  case (Cons r rs)
  from Cons.prems(2) have rest: "\<forall>file' k'. Upload file' k' \<in> set rs \<longrightarrow> k' \<noteq> k"
    by simp
  show ?case
  proof (cases r)
    case (Upload file' k')
    with Cons.prems(2) have "k' \<noteq> k" by simp
    with Cons.prems(1) Upload have "handle L s r k = Some d"
      by (simp add: upload_other)
    from Cons.IH [of "handle L s r" d, OF this rest] Upload show ?thesis
      by (simp split: option.splits)
  next
    case (Finalize body)
    obtain s' res where f: "finalize L s body = (s', res)" by (cases "finalize L s body")
    have h: "handle L s r = s'"
      by (simp add: Finalize f)
    from finalize_cases [OF f] show ?thesis
    proof (elim disjE conjE exE)
      fix e
      assume "s' = s" "res = Inl e"
      with f Finalize have st: "stored_by L s r k = None" and s': "s' k = Some d"
        using Cons.prems(1) by simp_all
      from Cons.IH [of s' d, OF s' rest] show ?thesis
        by (simp add: h st split: option.splits)
    next
      fix k0 doc archive documentXml vs filledXml filled html
      assume s': "s' = s(k0 \<mapsto> doc\<lparr>filledBuffer := Some filled, filledHtml := Some html, lastValues := vs\<rparr>)"
        and res: "res = Inr (FinalizeOk k0 html)" and doc: "s k0 = Some doc"
      show ?thesis
      proof (cases "k0 = k")
        case True
        define d' where "d' = doc\<lparr>filledBuffer := Some filled, filledHtml := Some html, lastValues := vs\<rparr>"
        from s' True have s'k: "s' k = Some d'"
          by (simp add: d'_def)
        have fb: "filledBuffer d' = Some filled"
          by (simp add: d'_def)
        from f res True s'k fb have st: "stored_by L s r k = Some filled"
          by (simp add: Finalize)
        from Cons.IH [of s' d', OF s'k rest] show ?thesis
          by (simp add: h st fb split: option.splits)
      next
        case False
        with s' Cons.prems(1) have s'k: "s' k = Some d" by simp
        from f res False have st: "stored_by L s r k = None"
          by (simp add: Finalize)
        from Cons.IH [of s' d, OF s'k rest] show ?thesis
          by (simp add: h st split: option.splits)
      qed
    qed
  qed
qed


section \<open>The finalize handler and the store\<close>

text \<open>
  Claim C8. When a finalize request fails, at whichever step (the validation of the body,
  the lookup, the container parse, the read, the substitution, the repack or the render),
  the handler returns the store it was given: the \<open>filledBuffer\<close>, \<open>filledHtml\<close> and
  \<open>lastValues\<close> of every document are what they were before the call.
\<close>

theorem finalize_failure_keeps_store:
  "finalize L documentStore body = (documentStore', Inl e) \<Longrightarrow> documentStore' = documentStore"
  unfolding finalize_def failed_finalize_def
  by (auto split: option.splits prod.splits if_splits)

text \<open>
  The render of the refilled document fails in the example, after an earlier finalize has
  succeeded: the earlier output stays in the store.
\<close>

theorem finalize_failure_keeps_store_witness:
  "snd (finalize example_libs [str ''d1'' \<mapsto> example_filled] (example_body ''x'')) =
     Inl (HttpError 500 (str ''Failed to finalize document'')) \<and>
   fst (finalize example_libs [str ''d1'' \<mapsto> example_filled] (example_body ''x'')) =
     [str ''d1'' \<mapsto> example_filled]"
proof -
  let ?r = "finalize example_libs [str ''d1'' \<mapsto> example_filled] (example_body ''x'')"
  have failed: "snd ?r = Inl (HttpError 500 (str ''Failed to finalize document''))"
    by (simp only: example_finalize_fails snd_conv)
  then have "?r = (fst ?r, Inl (HttpError 500 (str ''Failed to finalize document'')))"
    by (simp add: prod_eq_iff)
  then have "fst ?r = [str ''d1'' \<mapsto> example_filled]"
    by (rule finalize_failure_keeps_store)
  with failed show ?thesis
    by (rule conjI)
qed





text \<open>
  Claim C9. Once an upload has stored a document under \<open>k\<close>, a download of \<open>k\<close> succeeds
  after any further requests (none of them an upload that draws \<open>k\<close> again): it serves the
  bytes stored by the last finalize of \<open>k\<close> that succeeded, and the uploaded bytes when
  there was none, in particular before any finalize has run.
\<close>

theorem download_serves_latest:
  assumes "upload L s file k = (s1, Inr ok)"
    and "\<forall>file' k'. Upload file' k' \<in> set rs \<longrightarrow> k' \<noteq> k"
  shows "\<exists>f. file = Some f \<and>
           download (run L s1 rs) k =
             Inr (case latest_filled L s1 rs k of Some x \<Rightarrow> x | None \<Rightarrow> buffer f)"
proof -
  from upload_cases [OF assms(1)] obtain f d where f: "file = Some f" and d: "s1 k = Some d"
    and o: "originalBuffer d = buffer f" and n: "filledBuffer d = None"
    by auto
  from run_download [of s1 k d rs L, OF d assms(2)] o n f show ?thesis
    by (simp split: option.splits)
qed

text \<open>
  In the example a finalize succeeds and a later one fails: the download serves the bytes
  of the first. Before them it serves the upload.
\<close>

theorem download_serves_latest_witness:
  "download
     (run example_libs [str ''d1'' \<mapsto> example_document]
        [Finalize (example_body ''Acme''), Finalize (example_body ''x'')])
     (str ''d1'') = Inr (map of_nat (str ''Acme'')) \<and>
   download (run example_libs [str ''d1'' \<mapsto> example_document] []) (str ''d1'') =
     Inr (buffer example_file)"
proof -
  have no_upload: "\<forall>file' k'. Upload file' k' \<in>
      set [Finalize (example_body ''Acme''), Finalize (example_body ''x'')] \<longrightarrow> k' \<noteq> str ''d1''"
    by simp
  have latest: "latest_filled example_libs [str ''d1'' \<mapsto> example_document]
      [Finalize (example_body ''Acme''), Finalize (example_body ''x'')] (str ''d1'') =
      Some (map of_nat (str ''Acme''))"
    by (simp add: example_finalize_ok example_finalize_fails; simp add: example_filled_def)
  from download_serves_latest [OF example_upload no_upload] latest
  have first: "download
     (run example_libs [str ''d1'' \<mapsto> example_document]
        [Finalize (example_body ''Acme''), Finalize (example_body ''x'')])
     (str ''d1'') = Inr (map of_nat (str ''Acme''))"
    by simp
  have "\<forall>file' k'. Upload file' k' \<in> set [] \<longrightarrow> k' \<noteq> str ''d1''"
    by simp
  from download_serves_latest [OF example_upload this]
  have "download (run example_libs [str ''d1'' \<mapsto> example_document] []) (str ''d1'') =
     Inr (buffer example_file)"
    by simp
  with first show ?thesis
    by (rule conjI)
qed

section \<open>The substitution loop\<close>





text \<open>
  Claim C1 (not as stated). The replacement is the encoded value read as a replacement
  pattern: \<open>$$\<close> in it becomes \<open>$\<close>, and \<open>$&\<close>, which the encoding itself produces from a
  dollar sign followed by a quote, an ampersand or an angle bracket, becomes the matched
  token. The two values below are written into the document other than encoded.
\<close>

theorem dollar_in_value_is_expanded:
  "encodeXml (str ''$$5'') = str ''$$5'' \<and>
   substitute [(str ''price'', JString (str ''$$5''))] (str ''<w:t>{{price}}</w:t>'') =
     Some (str ''<w:t>$5</w:t>'') \<and>
   encodeXml (str ''US$'' @ [39] @ str ''000'') = str ''US$&apos;000'' \<and>
   substitute [(str ''price'', JString (str ''US$'' @ [39] @ str ''000''))]
       (str ''<w:t>{{price}}</w:t>'') =
     Some (str ''<w:t>US{{price}}apos;000</w:t>'')"
  by (simp add: substitute_Cons encodeXml_eq xml_entity_def key_regex_def eval_defs
      del: substitute.simps(2))

text \<open>
  For a value without a dollar sign the loop does what claim C1 says: for a placeholder
  that discovery returned, every token of its identifier is replaced by the encoded value
  and the rest of the text is copied.
\<close>

lemma trim_decompose:
  "\<exists>a b. G = a @ trim G @ b \<and> (\<forall>c \<in> set a. is_space c) \<and> (\<forall>c \<in> set b. is_space c)"
proof -
  let ?D = "dropWhile is_space G"
  have "rev (takeWhile is_space (rev ?D) @ dropWhile is_space (rev ?D)) = ?D"
    by (simp only: takeWhile_dropWhile_id rev_rev_ident)
  then have "rev (dropWhile is_space (rev ?D)) @ rev (takeWhile is_space (rev ?D)) = ?D"
    by (simp only: rev_append)
  then have D: "?D = trim G @ rev (takeWhile is_space (rev ?D))"
    by (simp only: trim_def)
  have "G = takeWhile is_space G @ ?D"
    by simp
  with D have "G = takeWhile is_space G @ trim G @ rev (takeWhile is_space (rev ?D))"
    by simp
  moreover have "\<forall>c \<in> set (takeWhile is_space G). is_space c"
    by (auto dest: set_takeWhileD)
  moreover have "\<forall>c \<in> set (rev (takeWhile is_space (rev ?D))). is_space c"
    by (auto dest: set_takeWhileD)
  ultimately show ?thesis
    by blast
qed

lemma key_match_iff_token:
  assumes k: "123 \<notin> set k" "125 \<notin> set k" "trim k = k"
  shows "rx_match (key_regex k) s \<noteq> None \<longleftrightarrow> token_at k s"
proof
  assume "rx_match (key_regex k) s \<noteq> None"
  then obtain p where "p \<in> set (rx_paths (key_regex k) s)"
    by (cases "rx_paths (key_regex k) s") (auto simp: rx_match_None_iff)
  then obtain a b t where s: "s = str ''{{'' @ a @ k @ b @ str ''}}'' @ t"
    and a: "\<forall>c \<in> set a. is_space c" and b: "\<forall>c \<in> set b. is_space c"
    unfolding key_paths_iff by blast
  have "trim (a @ k @ b) = k"
    using trim_spaces_left [OF a, of "k @ b"] trim_spaces_right [OF b, of k] k(3) by simp
  moreover have "123 \<notin> set (a @ k @ b)" "125 \<notin> set (a @ k @ b)"
    using a b k braces_not_space by auto
  moreover have "s = str ''{{'' @ (a @ k @ b) @ str ''}}'' @ t"
    by (simp add: s)
  ultimately show "token_at k s"
    unfolding token_at_def by blast
next
  assume "token_at k s"
  then obtain G t where s: "s = str ''{{'' @ G @ str ''}}'' @ t" and G: "trim G = k"
    unfolding token_at_def by blast
  from trim_decompose [of G] G obtain a b where "G = a @ k @ b"
    "\<forall>c \<in> set a. is_space c" "\<forall>c \<in> set b. is_space c"
    by auto
  with s have "[1, 1, length a] @ replicate (length k) 1 @ [length b, 1, 1]
      \<in> set (rx_paths (key_regex k) s)"
    unfolding key_paths_iff by auto
  then show "rx_match (key_regex k) s \<noteq> None"
    by (auto simp: rx_match_None_iff)
qed

lemma key_match_token:
  assumes k: "123 \<notin> set k" "125 \<notin> set k" "trim k = k"
    and m: "rx_match (key_regex k) s = Some p"
  shows "\<exists>G t. s = str ''{{'' @ G @ str ''}}'' @ t \<and> 123 \<notin> set G \<and> 125 \<notin> set G \<and> trim G = k \<and>
           sum_list p = length G + 4"
proof -
  from m have "p \<in> set (rx_paths (key_regex k) s)"
    by (rule rx_match_in_paths)
  then obtain a b t where s: "s = str ''{{'' @ a @ k @ b @ str ''}}'' @ t"
    and a: "\<forall>c \<in> set a. is_space c" and b: "\<forall>c \<in> set b. is_space c"
    and p: "p = [1, 1, length a] @ replicate (length k) 1 @ [length b, 1, 1]"
    unfolding key_paths_iff by blast
  have "trim (a @ k @ b) = k"
    using trim_spaces_left [OF a, of "k @ b"] trim_spaces_right [OF b, of k] k(3) by simp
  moreover have "123 \<notin> set (a @ k @ b)" "125 \<notin> set (a @ k @ b)"
    using a b k braces_not_space by auto
  moreover have "s = str ''{{'' @ (a @ k @ b) @ str ''}}'' @ t"
    by (simp add: s)
  moreover have "sum_list p = length (a @ k @ b) + 4"
    by (simp add: p sum_list_replicate)
  ultimately show ?thesis
    by blast
qed

lemma replace_from_tokens_filled:
  assumes k: "123 \<notin> set k" "125 \<notin> set k" "trim k = k" and E: "36 \<notin> set E"
  shows "tokens_filled k E s (replace_from (key_regex k) E pre s)"
proof (induction "length s" arbitrary: s pre rule: less_induct)
  case less
  show ?case
  proof (cases s)
    case Nil
    have "\<not> token_at k []"
      by (simp add: token_at_def str_def)
    then have "rx_match (key_regex k) [] = None"
      using key_match_iff_token [OF k, of "[]"] by simp
    with Nil show ?thesis
      by (simp add: tokens_filled.nil)
  next
    case (Cons c cs)
    show ?thesis
    proof (cases "rx_match (key_regex k) s")
      case None
      then have "\<not> token_at k (c # cs)"
        using key_match_iff_token [OF k, of s] Cons by simp
      moreover have "tokens_filled k E cs (replace_from (key_regex k) E (pre @ [c]) cs)"
        by (rule less) (simp add: Cons)
      ultimately show ?thesis
        using None Cons by (simp add: tokens_filled.copy)
    next
      case (Some p)
      from key_match_token [OF k Some] obtain G t where
        s: "s = str ''{{'' @ G @ str ''}}'' @ t" and
        G: "123 \<notin> set G" "125 \<notin> set G" "trim G = k" and p: "sum_list p = length G + 4"
        by blast
      from p obtain n where n: "sum_list p = Suc n" "n = length G + 3"
        by simp
      from s Cons have cs: "cs = 123 # G @ 125 # 125 # t"
        by (simp add: str_def)
      have d: "drop n cs = t"
        by (simp add: cs n(2) numeral_3_eq_3)
      have "tokens_filled k E t (replace_from (key_regex k) E (pre @ c # take n cs) t)"
        by (rule less) (simp add: s str_def)
      with G have "tokens_filled k E (str ''{{'' @ G @ str ''}}'' @ t)
          (E @ replace_from (key_regex k) E (pre @ c # take n cs) t)"
        by (rule tokens_filled.fill)
      moreover have "replace_from (key_regex k) E pre s =
          E @ replace_from (key_regex k) E (pre @ c # take n cs) t"
        using Some Cons n(1) d E by (simp add: getSubstitution_plain)
      ultimately show ?thesis
        by (simp add: s)
    qed
  qed
qed

lemma encodeXml_no_dollar: "36 \<notin> set v \<Longrightarrow> 36 \<notin> set (encodeXml v)"
  by (induction v) (auto simp: encodeXml_eq xml_entity_def str_def)

lemma trim_trim: "trim (trim s) = trim s"
proof -
  from trim_decompose [of s] obtain a b where s: "s = a @ trim s @ b"
    and a: "\<forall>c \<in> set a. is_space c" and b: "\<forall>c \<in> set b. is_space c"
    by blast
  have "trim s = trim (a @ trim s @ b)"
    using s by simp
  also have "\<dots> = trim (trim s)"
    using trim_spaces_left [OF a, of "trim s @ b"] trim_spaces_right [OF b, of "trim s"] by simp
  finally show ?thesis by simp
qed

lemma set_trim: "set (trim s) \<subseteq> set s"
  using trim_decompose [of s] by (metis Un_iff set_append subsetI)

theorem tokens_of_a_placeholder_are_filled:
  assumes "q \<in> set (extractPlaceholders documentXml)" and "36 \<notin> set v"
  shows "\<exists>out. substitute [(id' q, JString v)] documentXml = Some out \<and>
           tokens_filled (id' q) (encodeXml v) documentXml out"
proof -
  from assms(1) extractPlaceholders_inv [of documentXml] have "curly_token documentXml (id' q)"
    by (simp add: good_def)
  then obtain G where G: "123 \<notin> set G" "125 \<notin> set G" "trim G = id' q"
    unfolding curly_token_def by blast
  from G set_trim [of G] have k: "123 \<notin> set (id' q)" "125 \<notin> set (id' q)"
    by auto
  from G(3) trim_trim [of G] have t: "trim (id' q) = id' q"
    by simp
  from replace_from_tokens_filled [OF k t encodeXml_no_dollar [OF assms(2)], of documentXml "[]"]
  show ?thesis
    by (simp add: substitute_Cons replace_def del: substitute.simps(2))
qed





section \<open>Discovery\<close>

text \<open>
  Claim C3 (not as stated). In the template of the scenario discovery finds one
  placeholder, \<open>client_name\<close>; the blank \<open>$[_____]\<close> is not one.
\<close>

theorem example_template_has_one_placeholder:
  "length (extractPlaceholders (str ''Dear {{client_name}}, sign here: $[_____]'')) = 1 \<and>
   map id' (extractPlaceholders (str ''Dear {{client_name}}, sign here: $[_____]'')) =
     [str ''client_name'']"
  by (simp only: example_discovery) simp

text \<open>
  Claim C3, amended. The identifiers that discovery returns are exactly the non-empty
  trimmed texts found between \<open>{{\<close> and \<open>}}\<close> with no brace in between: curly tokens and
  nothing else.
\<close>

theorem discovery_finds_curly_tokens:
  "id' ` set (extractPlaceholders xml) = {k. k \<noteq> [] \<and> curly_token xml k}"
proof (intro set_eqI iffI)
  fix k
  assume "k \<in> id' ` set (extractPlaceholders xml)"
  with extractPlaceholders_inv [of xml] show "k \<in> {k. k \<noteq> [] \<and> curly_token xml k}"
    by (auto simp: good_def)
next
  fix k
  assume "k \<in> {k. k \<noteq> [] \<and> curly_token xml k}"
  then show "k \<in> id' ` set (extractPlaceholders xml)"
    by (simp add: extractPlaceholders_complete)
qed

theorem discovery_finds_curly_tokens_witness:
  "str ''client_name'' \<in>
     id' ` set (extractPlaceholders (str ''Dear {{client_name}}, sign here: $[_____]''))"
proof -
  have "str ''Dear {{client_name}}, sign here: $[_____]'' =
      str ''Dear '' @ str ''{{'' @ str ''client_name'' @ str ''}}'' @ str '', sign here: $[_____]''"
    and "123 \<notin> set (str ''client_name'')" and "125 \<notin> set (str ''client_name'')"
    and "trim (str ''client_name'') = str ''client_name''"
    by (simp_all add: str_simps trim_def is_space_def)
  then have "curly_token (str ''Dear {{client_name}}, sign here: $[_____]'') (str ''client_name'')"
    unfolding curly_token_def by blast
  moreover have "str ''client_name'' \<noteq> []"
    by (simp add: str_simps)
  ultimately show ?thesis
    unfolding discovery_finds_curly_tokens by simp
qed

text \<open>
  Claim C5 (not as stated). Two tokens with the inner text \<open>date\<close>, and two blanks
  \<open>$[date]\<close>, give the single identifier \<open>date\<close> with the label \<open>date\<close>: no second
  identifier and no suffix.
\<close>

theorem repeated_token_gets_no_suffix:
  "map id' (extractPlaceholders (str ''{{date}} {{ date }} $[date] $[date]'')) = [str ''date''] \<and>
   map label (extractPlaceholders (str ''{{date}} {{ date }} $[date] $[date]'')) = [str ''date'']"
  by (simp only: twice_discovery) simp

text \<open>
  Claim C5, amended. The identifiers returned for a document are pairwise distinct; each
  is, as is its label, the non-empty trimmed inner text of a curly token of the document,
  with no suffix; and every such text has exactly one placeholder, however often it occurs.
\<close>

theorem placeholder_ids_distinct:
  "distinct (map id' (extractPlaceholders xml)) \<and>
   (\<forall>q \<in> set (extractPlaceholders xml). label q = id' q \<and> id' q \<noteq> [] \<and> curly_token xml (id' q)) \<and>
   (\<forall>k. k \<noteq> [] \<and> curly_token xml k \<longrightarrow>
      length (filter (\<lambda>q. id' q = k) (extractPlaceholders xml)) = 1)"
proof (intro conjI allI impI)
  show "distinct (map id' (extractPlaceholders xml))"
    using extractPlaceholders_inv [of xml] by simp
  show "\<forall>q \<in> set (extractPlaceholders xml). label q = id' q \<and> id' q \<noteq> [] \<and> curly_token xml (id' q)"
    using extractPlaceholders_inv [of xml] by (simp add: good_def)
  fix k
  assume "k \<noteq> [] \<and> curly_token xml k"
  then have "k \<in> id' ` set (extractPlaceholders xml)"
    by (simp add: extractPlaceholders_complete)
  with extractPlaceholders_inv [of xml] show "length (filter (\<lambda>q. id' q = k) (extractPlaceholders xml)) = 1"
    by (intro one_of_distinct) simp_all
qed

theorem placeholder_ids_distinct_witness:
  "distinct (map id' (extractPlaceholders (str ''{{date}} {{ date }} $[date] $[date]''))) \<and>
   length (filter (\<lambda>q. id' q = str ''date'')
     (extractPlaceholders (str ''{{date}} {{ date }} $[date] $[date]''))) = 1"
proof -
  have "str ''{{date}} {{ date }} $[date] $[date]'' =
      str ''{{date}} '' @ str ''{{'' @ str '' date '' @ str ''}}'' @ str '' $[date] $[date]''"
    and "123 \<notin> set (str '' date '')" and "125 \<notin> set (str '' date '')"
    and "trim (str '' date '') = str ''date''"
    by (simp_all add: str_simps trim_def is_space_def)
  then have "curly_token (str ''{{date}} {{ date }} $[date] $[date]'') (str ''date'')"
    unfolding curly_token_def by blast
  moreover have "str ''date'' \<noteq> []"
    by (simp add: str_simps)
  ultimately show ?thesis
    using placeholder_ids_distinct [of "str ''{{date}} {{ date }} $[date] $[date]''"]
    by blast
qed

section \<open>Incomplete values\<close>




end
